theory Spec2Isabelle
  imports Main "HOL-Library.Word"
begin

section \<open>The analysis database as the plugin script sees it\<close>

text \<open>
  The plugin script talks to a Binary Ninja \<open>BinaryView\<close>. The view is an object of the
  host tool, so the part of it the script reads and writes is a record here: the table of
  tag types (name to icon), the tag references, the functions and the global comments.
  Addresses are Python integers, hence \<open>int\<close>. A Python exception is a value of
  \<open>error\<close>, returned as \<open>Inl\<close>.
\<close>

datatype error = AttributeError | OSError

definition and_then :: "error + 'a \<Rightarrow> ('a \<Rightarrow> error + 'b) \<Rightarrow> error + 'b" where
  "and_then m f = (case m of Inl e \<Rightarrow> Inl e | Inr x \<Rightarrow> f x)"

text \<open>
  A type of the analysis tool is a pointer to a type, or anything else; of a type that is not
  a pointer the script only uses its printed form \<open>str(ty)\<close>.
\<close>

datatype bn_type = PointerType bn_type | OtherType string

record variable =
  var_type :: bn_type
  var_name :: string

record func =
  start :: int
  name :: string
  symbol_full_name :: string
  address_ranges :: "(int \<times> int) list"
  comments :: "int \<rightharpoonup> string"
  return_type :: bn_type
  parameter_vars :: "variable list"

text \<open>
  A tag reference \<open>BNTagReference\<close>: the tag (its identity, the name of its type and its
  description), whether the reference is automatic, and the address it is attached to. The
  reference is a C structure of the host tool and its address field is an unsigned integer
  of 64 bits; Python reads \<open>t.addr\<close> as the integer \<open>uint (ref_addr t)\<close>.
\<close>

record tag_ref =
  ref_tag_type :: string
  ref_tag_id :: nat
  ref_data :: string
  ref_auto :: bool
  ref_addr :: "64 word"

record BinaryView =
  tag_types :: "string \<rightharpoonup> string"
  tag_refs :: "tag_ref list"
  next_tag_id :: nat
  bv_functions :: "func list"
  bv_comments :: "int \<rightharpoonup> string"

subsection \<open>Tags\<close>

text \<open>
  \<open>bv.get_tag_type(name)\<close> is \<open>None\<close> for a name that is not registered, and the script
  reads \<open>.handle\<close> of the result at once: the attribute error of Python is the \<open>Inl\<close>
  branch below.
\<close>

definition get_tag_type :: "BinaryView \<Rightarrow> string \<Rightarrow> string option" where
  "get_tag_type bv nm = tag_types bv nm"

text \<open>
  \<open>add_auto_tag\<close>: a new tag of the named type is created, with an identity no other tag
  has, and attached to the address as an automatic data tag. The script calls the host's C
  function directly, and the address, a Python integer, is converted to the function's
  parameter of 64 bits without a range check: what is stored is the address modulo \<open>2 ^ 64\<close>.
\<close>

definition add_auto_tag :: "BinaryView \<Rightarrow> int \<Rightarrow> string \<Rightarrow> string \<Rightarrow> error + BinaryView" where
  "add_auto_tag bv addr nm desc =
     (case get_tag_type bv nm of
        None \<Rightarrow> Inl AttributeError
      | Some _ \<Rightarrow>
          Inr (bv\<lparr>tag_refs := tag_refs bv @
                    [\<lparr>ref_tag_type = nm, ref_tag_id = next_tag_id bv, ref_data = desc,
                      ref_auto = True, ref_addr = word_of_int addr\<rparr>],
                  next_tag_id := Suc (next_tag_id bv)\<rparr>))"

text \<open>\<open>get_tag_refs\<close>: every tag reference of the view whose tag has the named type.\<close>

definition get_tag_refs :: "BinaryView \<Rightarrow> string \<Rightarrow> error + tag_ref list" where
  "get_tag_refs bv ty =
     (case get_tag_type bv ty of
        None \<Rightarrow> Inl AttributeError
      | Some _ \<Rightarrow> Inr (filter (\<lambda>t. ref_tag_type t = ty) (tag_refs bv)))"

text \<open>\<open>remove_tag_ref\<close>: the given reference is no longer attached.\<close>

definition remove_tag_ref :: "BinaryView \<Rightarrow> tag_ref \<Rightarrow> BinaryView" where
  "remove_tag_ref bv r = bv\<lparr>tag_refs := filter (\<lambda>t. t \<noteq> r) (tag_refs bv)\<rparr>"

text \<open>The icons of the two tag types, as the UTF-8 bytes of the source's literals.\<close>

definition pc_icon :: string where
  "pc_icon = [CHR 0xE2, CHR 0x9E, CHR 0xA1, CHR 0xEF, CHR 0xB8, CHR 0x8F]"

definition bp_icon :: string where
  "bp_icon = [CHR 0xF0, CHR 0x9F, CHR 0x94, CHR 0xB4]"

definition create_tag_type :: "BinaryView \<Rightarrow> string \<Rightarrow> string \<Rightarrow> BinaryView" where
  "create_tag_type bv k v = bv\<lparr>tag_types := (tag_types bv)(k \<mapsto> v)\<rparr>"

text \<open>\<open>ServerHandler.init\<close>: each of the two tag types is created unless it is there.\<close>

definition init :: "BinaryView \<Rightarrow> BinaryView" where
  "init bv =
     fold (\<lambda>(k, v) b. if tag_types b k = None then create_tag_type b k v else b)
       [(''pwndbg-pc'', pc_icon), (''pwndbg-bp'', bp_icon)] bv"

text \<open>\<open>ServerHandler.clear_pc_tag\<close>: the loop runs over the list read before it starts.\<close>

definition clear_pc_tag :: "BinaryView \<Rightarrow> error + BinaryView" where
  "clear_pc_tag bv =
     and_then (get_tag_refs bv ''pwndbg-pc'')
       (\<lambda>refs. Inr (fold (\<lambda>t b. remove_tag_ref b t) refs bv))"

definition update_pc_tag :: "BinaryView \<Rightarrow> int \<Rightarrow> error + BinaryView" where
  "update_pc_tag bv new_pc =
     and_then (clear_pc_tag bv)
       (\<lambda>b. add_auto_tag b new_pc ''pwndbg-pc'' ''current pc'')"

definition get_bp_tags :: "BinaryView \<Rightarrow> error + int list" where
  "get_bp_tags bv =
     and_then (get_tag_refs bv ''pwndbg-bp'') (\<lambda>refs. Inr (map (\<lambda>t. uint (ref_addr t)) refs))"

text \<open>
  \<open>toggle_breakpoint\<close>: the loop carries the view and the flag \<open>found\<close>; the new tag is added
  after the loop when the flag is still false. The test \<open>t.addr == addr\<close> compares the
  address read from the reference, which lies between 0 and \<open>2 ^ 64\<close>, with the integer
  given.
\<close>

definition toggle_step :: "int \<Rightarrow> tag_ref \<Rightarrow> BinaryView \<times> bool \<Rightarrow> BinaryView \<times> bool" where
  "toggle_step addr t s =
     (if uint (ref_addr t) = addr then (remove_tag_ref (fst s) t, True) else s)"

definition toggle_breakpoint :: "BinaryView \<Rightarrow> int \<Rightarrow> error + BinaryView" where
  "toggle_breakpoint bv addr =
     and_then (get_tag_refs bv ''pwndbg-bp'')
       (\<lambda>refs.
          let (b, found) = fold (toggle_step addr) refs (bv, False)
          in if \<not> found then add_auto_tag b addr ''pwndbg-bp'' ''GDB breakpoint''
             else Inr b)"

text \<open>A run of toggles, one after the other, stopping at the first error.\<close>

fun toggle_all :: "BinaryView \<Rightarrow> int list \<Rightarrow> error + BinaryView" where
  "toggle_all bv [] = Inr bv"
| "toggle_all bv (a # as) = and_then (toggle_breakpoint bv a) (\<lambda>b. toggle_all b as)"


definition empty_view :: BinaryView where
  "empty_view = \<lparr>tag_types = Map.empty, tag_refs = [], next_tag_id = 0, bv_functions = [],
                  bv_comments = Map.empty\<rparr>"

subsection \<open>Functions and types\<close>

text \<open>
  \<open>bv.get_functions_containing(addr)\<close>: a function of the tool owns a list of half-open
  address ranges, and contains an address when one of its ranges does.
\<close>

definition func_contains :: "func \<Rightarrow> int \<Rightarrow> bool" where
  "func_contains f addr = list_ex (\<lambda>(lo, hi). lo \<le> addr \<and> addr < hi) (address_ranges f)"

definition get_functions_containing :: "BinaryView \<Rightarrow> int \<Rightarrow> func list" where
  "get_functions_containing bv addr = filter (\<lambda>f. func_contains f addr) (bv_functions bv)"

text \<open>
  Python's \<open>min(xs, key=k)\<close> on a list that is not empty: the running minimum is replaced
  only by an element whose key is strictly smaller, so the first minimal element wins.
\<close>

fun py_min :: "('a \<Rightarrow> int) \<Rightarrow> 'a \<Rightarrow> 'a list \<Rightarrow> 'a" where
  "py_min key m [] = m"
| "py_min key m (x # xs) = py_min key (if key x < key m then x else m) xs"

definition get_widest_func :: "BinaryView \<Rightarrow> int \<Rightarrow> func option" where
  "get_widest_func bv addr =
     (let funcs = get_functions_containing bv addr
      in if length funcs = 0 then None else Some (py_min start (hd funcs) (tl funcs)))"

definition get_func_info :: "BinaryView \<Rightarrow> int \<Rightarrow> (string \<times> int) option" where
  "get_func_info bv addr =
     (case get_widest_func bv addr of
        None \<Rightarrow> None
      | Some f \<Rightarrow> Some (symbol_full_name f, start f))"

text \<open>\<open>bv.get_function_at(addr)\<close>: the function that starts at the address, if there is one.\<close>

definition get_function_at :: "BinaryView \<Rightarrow> int \<Rightarrow> func option" where
  "get_function_at bv addr = find (\<lambda>f. start f = addr) (bv_functions bv)"

text \<open>
  \<open>count_pointers\<close>: the \<open>while\<close> loop follows \<open>ty.target\<close> as long as the type is a pointer
  and counts its rounds; the result is the printed form of the type it stops at, and the
  count.
\<close>

fun count_pointers_loop :: "bn_type \<Rightarrow> int \<Rightarrow> bn_type \<times> int" where
  "count_pointers_loop (PointerType target) derefcnt = count_pointers_loop target (derefcnt + 1)"
| "count_pointers_loop (OtherType s) derefcnt = (OtherType s, derefcnt)"

fun str_type :: "bn_type \<Rightarrow> string" where
  "str_type (OtherType s) = s"
| "str_type (PointerType target) = str_type target @ ''*''"

definition count_pointers :: "bn_type \<Rightarrow> string \<times> int" where
  "count_pointers ty = (case count_pointers_loop ty 0 of (t, derefcnt) \<Rightarrow> (str_type t, derefcnt))"

definition get_func_type ::
  "BinaryView \<Rightarrow> int \<Rightarrow> ((string \<times> int \<times> string) \<times> (string \<times> int \<times> string) list) option" where
  "get_func_type bv addr =
     (case get_function_at bv addr of
        None \<Rightarrow> None
      | Some f \<Rightarrow>
          let ret_ty = (case count_pointers (return_type f) of (s, n) \<Rightarrow> (s, n, name f));
              arg_tys = map (\<lambda>arg. case count_pointers (var_type arg) of
                                     (s, n) \<Rightarrow> (s, n, var_name arg)) (parameter_vars f)
          in Some (ret_ty, arg_tys))"

text \<open>
  The leaf of a type and the number of pointer wrappers around it, by recursion on the type:
  what \<open>count_pointers\<close> is compared with.
\<close>

fun leaf_type :: "bn_type \<Rightarrow> bn_type" where
  "leaf_type (PointerType target) = leaf_type target"
| "leaf_type (OtherType s) = OtherType s"

fun pointer_depth :: "bn_type \<Rightarrow> nat" where
  "pointer_depth (PointerType target) = Suc (pointer_depth target)"
| "pointer_depth (OtherType s) = 0"

subsection \<open>Comments\<close>

text \<open>
  Python's \<open>s.split(sep)\<close> for a separator of one character: the pieces between the
  separators, empty pieces included, so the result is never the empty list.
\<close>

fun py_split :: "string \<Rightarrow> char \<Rightarrow> string list" where
  "py_split [] sep = [[]]"
| "py_split (c # cs) sep =
     (if c = sep then [] # py_split cs sep
      else (case py_split cs sep of
              [] \<Rightarrow> [[c]]
            | w # ws \<Rightarrow> (c # w) # ws))"

definition newline :: char where
  "newline = CHR 0x0A"

text \<open>\<open>get_comment_at\<close> of a function and of the view: the empty string where there is none.\<close>

definition func_get_comment_at :: "func \<Rightarrow> int \<Rightarrow> string" where
  "func_get_comment_at f addr = (case comments f addr of None \<Rightarrow> [] | Some c \<Rightarrow> c)"

definition bv_get_comment_at :: "BinaryView \<Rightarrow> int \<Rightarrow> string" where
  "bv_get_comment_at bv addr = (case bv_comments bv addr of None \<Rightarrow> [] | Some c \<Rightarrow> c)"

text \<open>
  \<open>ServerHandler.get_comments\<close>: \<open>sorted\<close> is stable, as \<open>sort_key\<close> is; the loop appends to
  \<open>ret\<close>, and the comprehension at the end filters and prefixes.
\<close>

definition get_comments :: "BinaryView \<Rightarrow> int \<Rightarrow> string list" where
  "get_comments bv addr =
     (let ret = fold (\<lambda>f ret. ret @ py_split (func_get_comment_at f addr) newline)
                  (sort_key start (get_functions_containing bv addr)) [];
          ret = ret @ py_split (bv_get_comment_at bv addr) newline
      in map (\<lambda>x. ''// '' @ x) (filter (\<lambda>x. x \<noteq> []) ret))"

subsection \<open>The server\<close>

text \<open>
  The module's global \<open>server\<close> is \<open>None\<close> or a running XML-RPC server; of the server the
  model keeps what \<open>start_server\<close> sets up: introspection, the registered method names and
  the serving thread. The log of the plugin and whether another process holds the port are
  part of the state too. The methods are bound to the handler of the view the server was
  started with.
\<close>

record rpc_server =
  introspection :: bool
  registered :: "string list"
  serving :: bool

record plugin =
  server :: "rpc_server option"
  log_lines :: "string list"
  port_in_use :: bool

definition to_register :: "string list" where
  "to_register =
     [''clear_pc_tag'', ''navigate_to'', ''update_pc_tag'', ''get_bp_tags'', ''get_symbol'',
      ''get_func_info'', ''get_data_info'', ''get_comments'', ''decompile_func'',
      ''get_func_type'', ''get_base'', ''get_py_version'', ''get_version'']"

text \<open>
  \<open>start_server\<close>: the handler is built and initialised first, then comes the test of the
  global; binding the port fails with \<open>OSError\<close> when the port is taken.
\<close>

definition start_server :: "plugin \<Rightarrow> BinaryView \<Rightarrow> error + (plugin \<times> BinaryView)" where
  "start_server g bv =
     (let bv1 = init bv
      in if server g \<noteq> None then Inr (g, bv1)
         else if port_in_use g then Inl OSError
         else Inr (g\<lparr>server := Some \<lparr>introspection = True, registered = to_register,
                                       serving = True\<rparr>,
                      log_lines := log_lines g @
                        [''XML-RPC server listening on http://127.0.0.1:31337'']\<rparr>,
                   bv1))"

definition stop_server :: "plugin \<Rightarrow> BinaryView \<Rightarrow> plugin" where
  "stop_server g bv = (if server g = None then g else g\<lparr>server := None\<rparr>)"

section \<open>Events and caches\<close>

text \<open>
  The events of \<open>pwndbg.gdblib.events\<close> that hooks.py names, and the dictionary it passes to
  \<open>connect_clear_caching_events\<close>, in the order it is written (a Python dictionary keeps the
  order of insertion).
\<close>

datatype event =
  Stop | Mem_changed | Reg_changed | Exit | New_objfile | Start | Cont | Thread | Before_prompt

definition cache_groups :: "(string \<times> event list) list" where
  "cache_groups =
     [(''stop'', [Stop, Mem_changed, Reg_changed]),
      (''exit'', [Exit]),
      (''objfile'', [New_objfile]),
      (''start'', [Start]),
      (''cont'', [Cont, Mem_changed, Reg_changed]),
      (''thread'', [Thread]),
      (''prompt'', [Before_prompt]),
      (''forever'', [])]"

text \<open>
  Modelled from the spec: the cache, whose module \<open>pwndbg/lib/cache.py\<close> is not among the
  sources. A cache is subscribed to trigger groups when it is registered and holds entries.
\<close>

record cache =
  groups :: "string list"
  entries :: "(nat \<times> nat) list"

text \<open>
  Modelled from the spec: a handler of the event bus (\<open>pwndbg/gdblib/events.py\<close> is not among
  the sources). It is the clearing handler of a group, or any other reaction, which may
  change the caches and may fail.
\<close>

datatype handler = Clear_group string | Feature "cache list \<Rightarrow> cache list \<times> bool"

text \<open>
  Modelled from the spec: a handler bound to an event with a priority, section 3; the bus
  module is not among the sources.
\<close>

record registration =
  reg_event :: event
  reg_priority :: int
  reg_handler :: handler

text \<open>
  Modelled from the spec: \<open>register(event, handler, priority)\<close> of the event bus, section
  4.1. The bus is the list of registrations in the order they were made.
\<close>

definition register :: "registration list \<Rightarrow> event \<Rightarrow> handler \<Rightarrow> int \<Rightarrow> registration list" where
  "register bus e h p = bus @ [\<lparr>reg_event = e, reg_priority = p, reg_handler = h\<rparr>]"

text \<open>
  Modelled from the spec: the ordered list of an event's handlers, section 4.1: a lower
  priority runs first, and the order of insertion breaks ties (the sort is stable).
\<close>

definition handlers_for :: "registration list \<Rightarrow> event \<Rightarrow> registration list" where
  "handlers_for bus e = sort_key reg_priority (filter (\<lambda>r. reg_event r = e) bus)"

text \<open>
  Modelled from the spec: clearing every cache subscribed to a group, section 4.2; a cache is
  emptied in one step.
\<close>

definition clear_group :: "string \<Rightarrow> cache list \<Rightarrow> cache list" where
  "clear_group g cs = map (\<lambda>c. if g \<in> set (groups c) then c\<lparr>entries := []\<rparr> else c) cs"

text \<open>
  Modelled from the spec: one handler of a dispatch, section 4.1. The state is the caches
  and the number of failures reported so far; a failure is reported and nothing else.
\<close>

fun run_handler :: "handler \<Rightarrow> cache list \<times> nat \<Rightarrow> cache list \<times> nat" where
  "run_handler (Clear_group g) (cs, n) = (clear_group g cs, n)"
| "run_handler (Feature f) (cs, n) = (case f cs of (cs', failed) \<Rightarrow> (cs', if failed then Suc n else n))"

text \<open>
  Modelled from the spec: \<open>dispatch(event)\<close>, section 4.1: every handler of the event, in
  order, one after the other.
\<close>

definition dispatch :: "registration list \<Rightarrow> event \<Rightarrow> cache list \<times> nat \<Rightarrow> cache list \<times> nat" where
  "dispatch bus e s = fold run_handler (map reg_handler (handlers_for bus e)) s"

text \<open>
  Modelled from the spec: the cache registry, section 4.2 (\<open>connect_clear_caching_events\<close> of
  \<open>pwndbg/lib/cache.py\<close>, not among the sources): for every group and every event of the
  group, one clearing handler of the group is registered for the event, at the given
  priority.
\<close>

definition connect_clear_caching_events ::
  "(string \<times> event list) list \<Rightarrow> int \<Rightarrow> registration list \<Rightarrow> registration list" where
  "connect_clear_caching_events event_dicts priority bus =
     fold (\<lambda>(g, evs) b. fold (\<lambda>e b'. register b' e (Clear_group g) priority) evs b)
       event_dicts bus"

text \<open>The registrations of a list, made one after the other on a bus.\<close>

definition register_all :: "registration list \<Rightarrow> registration list \<Rightarrow> registration list" where
  "register_all rs bus = fold (\<lambda>r b. register b (reg_event r) (reg_handler r) (reg_priority r)) rs bus"

text \<open>The groups an event triggers in a wiring, one for each time the group lists it.\<close>

definition groups_triggered_by :: "(string \<times> event list) list \<Rightarrow> event \<Rightarrow> string list" where
  "groups_triggered_by event_dicts e =
     concat (map (\<lambda>(g, evs). map (\<lambda>_. g) (filter (\<lambda>x. x = e) evs)) event_dicts)"

text \<open>The clearing registrations of a wiring, in the order the registry makes them.\<close>

definition clear_registrations :: "(string \<times> event list) list \<Rightarrow> int \<Rightarrow> registration list" where
  "clear_registrations event_dicts priority =
     concat (map (\<lambda>(g, evs). map (\<lambda>e. \<lparr>reg_event = e, reg_priority = priority,
                                         reg_handler = Clear_group g\<rparr>) evs) event_dicts)"

section \<open>Address translation\<close>

text \<open>
  Modelled from the spec: the address translation context, section 3
  (\<open>pwndbg/integration/binja.py\<close>, which commands/binja.py calls, is not among the sources).
  Python integers are unbounded, so the bases and the addresses are integers.
\<close>

record translation_context =
  runtime_base :: int
  static_base :: int

text \<open>
  Modelled from the spec: \<open>to_static\<close>, section 4.3; the module that defines the
  translation is not among the sources.
\<close>

definition to_static :: "translation_context \<Rightarrow> int \<Rightarrow> int" where
  "to_static ctx runtime_addr = runtime_addr - runtime_base ctx + static_base ctx"

text \<open>
  Modelled from the spec: \<open>to_runtime\<close>, section 4.3; the module that defines the
  translation is not among the sources.
\<close>

definition to_runtime :: "translation_context \<Rightarrow> int \<Rightarrow> int" where
  "to_runtime ctx static_addr = static_addr - static_base ctx + runtime_base ctx"

section \<open>Example data\<close>

text \<open>
  The two nested functions of the specification's example: \<open>F1\<close> covers 0x1000 up to 0x2000,
  \<open>F2\<close> covers 0x1500 up to 0x1800.
\<close>

definition example_f1 :: func where
  "example_f1 = \<lparr>start = 0x1000, name = ''F1'', symbol_full_name = ''F1'',
                  address_ranges = [(0x1000, 0x2000)], comments = Map.empty,
                  return_type = PointerType (PointerType (OtherType ''char'')),
                  parameter_vars = [\<lparr>var_type = OtherType ''int32_t'', var_name = ''argc''\<rparr>,
                                    \<lparr>var_type = PointerType (OtherType ''char''),
                                      var_name = ''s''\<rparr>]\<rparr>"

definition example_f2 :: func where
  "example_f2 = \<lparr>start = 0x1500, name = ''F2'', symbol_full_name = ''F2'',
                  address_ranges = [(0x1500, 0x1800)], comments = Map.empty,
                  return_type = OtherType ''void'', parameter_vars = []\<rparr>"

definition example_view :: BinaryView where
  "example_view = empty_view\<lparr>bv_functions := [example_f2, example_f1]\<rparr>"

text \<open>
  A view whose only comment is the global one at 0x1000, with the text of the
  specification's example: \<open>a\<close>, newline, \<open>b\<close>, newline. And the view of \<open>F1\<close> and \<open>F2\<close>
  with a comment of each function and a global one at 0x1600.
\<close>

definition example_commented :: BinaryView where
  "example_commented =
     empty_view\<lparr>bv_comments := [0x1000 \<mapsto> [CHR ''a'', newline, CHR ''b'', newline]]\<rparr>"

definition example_nested_comments :: BinaryView where
  "example_nested_comments =
     empty_view\<lparr>bv_functions :=
                  [example_f2\<lparr>comments := [0x1600 \<mapsto> ''inner'']\<rparr>,
                   example_f1\<lparr>comments := [0x1600 \<mapsto> ''outer'' @ [newline, newline] @ ''more'']\<rparr>],
                bv_comments := [0x1600 \<mapsto> ''global'']\<rparr>"

text \<open>The plugin before the first start, with the port free.\<close>

definition initial_plugin :: plugin where
  "initial_plugin = \<lparr>server = None, log_lines = [], port_in_use = False\<rparr>"

text \<open>
  A cache of group \<open>stop\<close> and a cache of group \<open>forever\<close>, both filled, and
  a handler for the stop event, at a priority after the clearing one, that fails when it
  sees an entry in a cache of group \<open>stop\<close>.
\<close>

definition example_caches :: "cache list" where
  "example_caches = [\<lparr>groups = [''stop''], entries = [(1, 2)]\<rparr>,
                     \<lparr>groups = [''forever''], entries = [(3, 4)]\<rparr>]"

definition stale_check :: "cache list \<Rightarrow> cache list \<times> bool" where
  "stale_check cs = (cs, list_ex (\<lambda>c. ''stop'' \<in> set (groups c) \<and> entries c \<noteq> []) cs)"

definition example_handlers :: "registration list" where
  "example_handlers = [\<lparr>reg_event = Stop, reg_priority = 10, reg_handler = Feature stale_check\<rparr>]"

section \<open>Tags: toggling breakpoints, moving the PC tag\<close>

lemma fold_remove_tag_ref:
  "fold (\<lambda>t b. remove_tag_ref b t) refs bv =
     bv\<lparr>tag_refs := filter (\<lambda>t. t \<notin> set refs) (tag_refs bv)\<rparr>"
proof (induction refs arbitrary: bv)
  case Nil
  show ?case by simp
next
  case (Cons r refs)
  have "fold (\<lambda>t b. remove_tag_ref b t) (r # refs) bv =
        fold (\<lambda>t b. remove_tag_ref b t) refs (remove_tag_ref bv r)"
    by simp
  also have "\<dots> = (remove_tag_ref bv r)
       \<lparr>tag_refs := filter (\<lambda>t. t \<notin> set refs) (tag_refs (remove_tag_ref bv r))\<rparr>"
    by (rule Cons.IH)
  also have "\<dots> = bv\<lparr>tag_refs := filter (\<lambda>t. t \<notin> set (r # refs)) (tag_refs bv)\<rparr>"
    by (simp add: remove_tag_ref_def conj_commute)
  finally show ?case .
qed

lemma fold_toggle_step:
  "fold (toggle_step a) refs (bv, fl) =
     (bv\<lparr>tag_refs := filter (\<lambda>t. \<not> (t \<in> set refs \<and> uint (ref_addr t) = a)) (tag_refs bv)\<rparr>,
      fl \<or> (\<exists>t \<in> set refs. uint (ref_addr t) = a))"
proof (induction refs arbitrary: bv fl)
  case Nil
  show ?case by simp
next
  case (Cons r refs)
  have step: "fold (toggle_step a) (r # refs) (bv, fl) =
        fold (toggle_step a) refs (toggle_step a r (bv, fl))"
    by simp
  show ?case
  proof (cases "uint (ref_addr r) = a")
    case True
    have flt: "filter (\<lambda>t. \<not> (t \<in> set refs \<and> uint (ref_addr t) = a))
            (filter (\<lambda>t. t \<noteq> r) (tag_refs bv))
          = filter (\<lambda>t. \<not> (t \<in> set (r # refs) \<and> uint (ref_addr t) = a)) (tag_refs bv)"
      using True by (auto intro: filter_cong)
    have "toggle_step a r (bv, fl) = (remove_tag_ref bv r, True)"
      using True by (simp add: toggle_step_def)
    then have "fold (toggle_step a) (r # refs) (bv, fl) =
        fold (toggle_step a) refs (remove_tag_ref bv r, True)"
      using step by simp
    also have "\<dots> = ((remove_tag_ref bv r)\<lparr>tag_refs :=
          filter (\<lambda>t. \<not> (t \<in> set refs \<and> uint (ref_addr t) = a))
            (tag_refs (remove_tag_ref bv r))\<rparr>,
          True \<or> (\<exists>t \<in> set refs. uint (ref_addr t) = a))"
      by (rule Cons.IH)
    also have "\<dots> =
      (bv\<lparr>tag_refs := filter (\<lambda>t. \<not> (t \<in> set (r # refs) \<and> uint (ref_addr t) = a)) (tag_refs bv)\<rparr>,
       fl \<or> (\<exists>t \<in> set (r # refs). uint (ref_addr t) = a))"
      using True flt by (simp add: remove_tag_ref_def)
    finally show ?thesis .
  next
    case False
    have flt: "filter (\<lambda>t. \<not> (t \<in> set refs \<and> uint (ref_addr t) = a)) (tag_refs bv)
          = filter (\<lambda>t. \<not> (t \<in> set (r # refs) \<and> uint (ref_addr t) = a)) (tag_refs bv)"
      using False by (auto intro: filter_cong)
    have "toggle_step a r (bv, fl) = (bv, fl)"
      using False by (simp add: toggle_step_def)
    then have "fold (toggle_step a) (r # refs) (bv, fl) = fold (toggle_step a) refs (bv, fl)"
      using step by simp
    also have "\<dots> =
      (bv\<lparr>tag_refs := filter (\<lambda>t. \<not> (t \<in> set refs \<and> uint (ref_addr t) = a)) (tag_refs bv)\<rparr>,
       fl \<or> (\<exists>t \<in> set refs. uint (ref_addr t) = a))"
      by (rule Cons.IH)
    also have "\<dots> =
      (bv\<lparr>tag_refs := filter (\<lambda>t. \<not> (t \<in> set (r # refs) \<and> uint (ref_addr t) = a)) (tag_refs bv)\<rparr>,
       fl \<or> (\<exists>t \<in> set (r # refs). uint (ref_addr t) = a))"
      using False flt by simp
    finally show ?thesis .
  qed
qed

lemma filter_bp_at:
  "filter (\<lambda>t. \<not> (t \<in> set (filter (\<lambda>t. ref_tag_type t = ty) rs) \<and> uint (ref_addr t) = a)) rs
   = filter (\<lambda>t. \<not> (ref_tag_type t = ty \<and> uint (ref_addr t) = a)) rs"
  by (auto intro: filter_cong)

lemma fold_toggle_step_refs:
  "fold (toggle_step a) (filter (\<lambda>t. ref_tag_type t = ty) (tag_refs bv)) (bv, False) =
     (bv\<lparr>tag_refs := filter (\<lambda>t. \<not> (ref_tag_type t = ty \<and> uint (ref_addr t) = a)) (tag_refs bv)\<rparr>,
      \<exists>t \<in> set (tag_refs bv). ref_tag_type t = ty \<and> uint (ref_addr t) = a)"
  unfolding fold_toggle_step filter_bp_at by auto

lemma toggle_breakpoint_present:
  assumes "tag_types bv ''pwndbg-bp'' = Some i"
    and "\<exists>t \<in> set (tag_refs bv). ref_tag_type t = ''pwndbg-bp'' \<and> uint (ref_addr t) = a"
  shows "toggle_breakpoint bv a =
     Inr (bv\<lparr>tag_refs := filter (\<lambda>t. \<not> (ref_tag_type t = ''pwndbg-bp'' \<and> uint (ref_addr t) = a))
                           (tag_refs bv)\<rparr>)"
proof -
  have "get_tag_refs bv ''pwndbg-bp'' = Inr (filter (\<lambda>t. ref_tag_type t = ''pwndbg-bp'') (tag_refs bv))"
    using assms(1) by (simp add: get_tag_refs_def get_tag_type_def)
  then show ?thesis
    using assms(2) by (simp add: toggle_breakpoint_def and_then_def fold_toggle_step_refs)
qed

lemma toggle_breakpoint_absent:
  assumes "tag_types bv ''pwndbg-bp'' = Some i"
    and "\<not> (\<exists>t \<in> set (tag_refs bv). ref_tag_type t = ''pwndbg-bp'' \<and> uint (ref_addr t) = a)"
  shows "toggle_breakpoint bv a =
     Inr (bv\<lparr>tag_refs := tag_refs bv @
                 [\<lparr>ref_tag_type = ''pwndbg-bp'', ref_tag_id = next_tag_id bv,
                   ref_data = ''GDB breakpoint'', ref_auto = True, ref_addr = word_of_int a\<rparr>],
             next_tag_id := Suc (next_tag_id bv)\<rparr>)"
proof -
  have same: "filter (\<lambda>t. \<not> (ref_tag_type t = ''pwndbg-bp'' \<and> uint (ref_addr t) = a)) (tag_refs bv)
      = tag_refs bv"
    using assms(2) by (auto intro: filter_True)
  have "get_tag_refs bv ''pwndbg-bp'' = Inr (filter (\<lambda>t. ref_tag_type t = ''pwndbg-bp'') (tag_refs bv))"
    using assms(1) by (simp add: get_tag_refs_def get_tag_type_def)
  then show ?thesis
    using assms same
    by (simp add: toggle_breakpoint_def and_then_def fold_toggle_step_refs add_auto_tag_def
        get_tag_type_def)
qed

lemma get_bp_tags_Inr:
  "get_bp_tags bv = Inr xs \<longleftrightarrow>
     tag_types bv ''pwndbg-bp'' \<noteq> None \<and>
     xs = map (\<lambda>t. uint (ref_addr t)) (filter (\<lambda>t. ref_tag_type t = ''pwndbg-bp'') (tag_refs bv))"
  by (auto simp add: get_bp_tags_def and_then_def get_tag_refs_def get_tag_type_def
      split: option.splits)

text \<open>
  One toggle, at any integer: the address of the tag it adds is the integer modulo
  \<open>2 ^ 64\<close>, which is the integer itself only when it is an address.
\<close>

lemma toggle_breakpoint_tags_mod:
  assumes "get_bp_tags bv = Inr xs"
  shows "\<exists>bv'. toggle_breakpoint bv a = Inr bv' \<and>
           get_bp_tags bv' =
             Inr (if a \<in> set xs then filter (\<lambda>x. x \<noteq> a) xs else xs @ [a mod 2 ^ 64])"
proof -
  from assms obtain i where reg: "tag_types bv ''pwndbg-bp'' = Some i"
    and xs: "xs = map (\<lambda>t. uint (ref_addr t))
                    (filter (\<lambda>t. ref_tag_type t = ''pwndbg-bp'') (tag_refs bv))"
    by (auto simp add: get_bp_tags_Inr)
  show ?thesis
  proof (cases "a \<in> set xs")
    case True
    then have ex: "\<exists>t \<in> set (tag_refs bv). ref_tag_type t = ''pwndbg-bp'' \<and> uint (ref_addr t) = a"
      using xs by auto
    have "filter (\<lambda>x. x \<noteq> a) xs =
          map (\<lambda>t. uint (ref_addr t)) (filter (\<lambda>t. ref_tag_type t = ''pwndbg-bp'')
            (filter (\<lambda>t. \<not> (ref_tag_type t = ''pwndbg-bp'' \<and> uint (ref_addr t) = a)) (tag_refs bv)))"
      unfolding xs filter_map
      by (auto simp add: comp_def intro: arg_cong[where f="map (\<lambda>t. uint (ref_addr t))"] filter_cong)
    then show ?thesis
      using True reg by (simp add: toggle_breakpoint_present[OF reg ex] get_bp_tags_Inr)
  next
    case False
    then have nex: "\<not> (\<exists>t \<in> set (tag_refs bv). ref_tag_type t = ''pwndbg-bp'' \<and> uint (ref_addr t) = a)"
      using xs by auto
    have "uint (word_of_int a :: 64 word) = a mod 2 ^ 64"
      by (simp add: uint_word_of_int)
    then show ?thesis
      using False reg xs by (simp add: toggle_breakpoint_absent[OF reg nex] get_bp_tags_Inr)
  qed
qed

lemma toggle_breakpoint_tags:
  assumes "get_bp_tags bv = Inr xs" and "0 \<le> a" and "a < 2 ^ 64"
  shows "\<exists>bv'. toggle_breakpoint bv a = Inr bv' \<and>
           get_bp_tags bv' = Inr (if a \<in> set xs then filter (\<lambda>x. x \<noteq> a) xs else xs @ [a])"
proof -
  have m: "a mod 2 ^ 64 = a"
    using assms(2,3) by (rule mod_pos_pos_trivial)
  show ?thesis
    using toggle_breakpoint_tags_mod[OF assms(1), of a] unfolding m .
qed

text \<open>
  An integer that is not an address: \<open>-1\<close> is stored as \<open>2 ^ 64 - 1\<close>, which the next
  toggle at \<open>-1\<close> does not find, so it adds a second tag; and the PC tag for \<open>-4096\<close> is at
  \<open>2 ^ 64 - 4096\<close>.
\<close>

lemma toggle_breakpoint_wraps:
  "and_then (toggle_all (init empty_view) [-1, -1]) get_bp_tags =
     Inr [18446744073709551615, 18446744073709551615]"
proof -
  have g0: "get_bp_tags (init empty_view) = Inr []"
    by (simp add: get_bp_tags_def and_then_def get_tag_refs_def get_tag_type_def init_def
        empty_view_def create_tag_type_def)
  from toggle_breakpoint_tags_mod[OF g0, of "-1"] obtain bv1 where
    t1: "toggle_breakpoint (init empty_view) (-1) = Inr bv1"
    and g1: "get_bp_tags bv1 = Inr [18446744073709551615]"
    by auto
  from toggle_breakpoint_tags_mod[OF g1, of "-1"] obtain bv2 where
    t2: "toggle_breakpoint bv1 (-1) = Inr bv2"
    and g2: "get_bp_tags bv2 = Inr [18446744073709551615, 18446744073709551615]"
    by auto
  show ?thesis
    by (simp add: t1 t2 g2 and_then_def)
qed

lemma toggle_breakpoint_distinct:
  assumes "get_bp_tags bv = Inr xs" and "distinct xs" and "0 \<le> a" and "a < 2 ^ 64"
  shows "\<exists>bv' ys. toggle_breakpoint bv a = Inr bv' \<and> get_bp_tags bv' = Inr ys \<and> distinct ys"
proof -
  from toggle_breakpoint_tags[OF assms(1,3,4)] obtain bv' where
    "toggle_breakpoint bv a = Inr bv'"
    "get_bp_tags bv' = Inr (if a \<in> set xs then filter (\<lambda>x. x \<noteq> a) xs else xs @ [a])"
    by blast
  moreover have "distinct (if a \<in> set xs then filter (\<lambda>x. x \<noteq> a) xs else xs @ [a])"
    using assms(2) by simp
  ultimately show ?thesis by blast
qed

lemma toggle_all_distinct:
  "get_bp_tags bv = Inr xs \<Longrightarrow> distinct xs \<Longrightarrow> \<forall>a \<in> set as. 0 \<le> a \<and> a < 2 ^ 64 \<Longrightarrow>
   \<exists>bv' ys. toggle_all bv as = Inr bv' \<and> get_bp_tags bv' = Inr ys \<and> distinct ys"
proof (induction as arbitrary: bv xs)
  case Nil
  then show ?case by auto
next
  case (Cons a as)
  have a: "0 \<le> a" "a < 2 ^ 64" using Cons.prems(3) by auto
  have rest: "\<forall>a \<in> set as. 0 \<le> a \<and> a < 2 ^ 64" using Cons.prems(3) by auto
  from toggle_breakpoint_distinct[OF Cons.prems(1,2) a] obtain bv1 ys where
    t: "toggle_breakpoint bv a = Inr bv1" and g: "get_bp_tags bv1 = Inr ys" and d: "distinct ys"
    by blast
  from Cons.IH[OF g d rest] show ?case
    using t by (simp add: and_then_def)
qed

text \<open>
  Claim C2. An address is an integer from 0 up to, and not including, \<open>2 ^ 64\<close>. In a view
  where the breakpoint tag type is registered, so that \<open>get_bp_tags\<close> returns a list \<open>xs\<close>:
  \<open>toggle_breakpoint\<close> at an address \<open>a\<close> returns, and afterwards the breakpoint addresses
  are \<open>xs\<close> without any \<open>a\<close> when \<open>a\<close> was among them, and \<open>xs\<close> with one \<open>a\<close> added
  otherwise. A second toggle at \<open>a\<close> brings the set of breakpoint addresses back to that
  of \<open>xs\<close>. From no breakpoint tags, toggling \<open>a\<close>, \<open>b\<close>, \<open>a\<close> with \<open>a\<close> and \<open>b\<close>
  distinct addresses leaves \<open>get_bp_tags\<close> returning the list of \<open>b\<close> alone.
\<close>

theorem toggle_breakpoint_twice:
  assumes "get_bp_tags bv = Inr xs" and "0 \<le> a" and "a < 2 ^ 64"
  shows "(\<exists>bv1. toggle_breakpoint bv a = Inr bv1 \<and>
            get_bp_tags bv1 = Inr (if a \<in> set xs then filter (\<lambda>x. x \<noteq> a) xs else xs @ [a]) \<and>
            (\<exists>bv2 ys. toggle_breakpoint bv1 a = Inr bv2 \<and> get_bp_tags bv2 = Inr ys \<and>
                       set ys = set xs)) \<and>
         (xs = [] \<and> a \<noteq> b \<and> 0 \<le> b \<and> b < 2 ^ 64 \<longrightarrow>
            and_then (toggle_all bv [a, b, a]) get_bp_tags = Inr [b])"
proof (intro conjI impI)
  let ?ys = "if a \<in> set xs then filter (\<lambda>x. x \<noteq> a) xs else xs @ [a]"
  from toggle_breakpoint_tags[OF assms] obtain bv1 where
    t1: "toggle_breakpoint bv a = Inr bv1" and g1: "get_bp_tags bv1 = Inr ?ys"
    by blast
  from toggle_breakpoint_tags[OF g1 assms(2,3)] obtain bv2 where
    t2: "toggle_breakpoint bv1 a = Inr bv2" and
    g2: "get_bp_tags bv2 = Inr (if a \<in> set ?ys then filter (\<lambda>x. x \<noteq> a) ?ys else ?ys @ [a])"
    by blast
  have "set (if a \<in> set ?ys then filter (\<lambda>x. x \<noteq> a) ?ys else ?ys @ [a]) = set xs"
    by auto
  with t1 g1 t2 g2 show "\<exists>bv1. toggle_breakpoint bv a = Inr bv1 \<and> get_bp_tags bv1 = Inr ?ys \<and>
            (\<exists>bv2 ys. toggle_breakpoint bv1 a = Inr bv2 \<and> get_bp_tags bv2 = Inr ys \<and>
                       set ys = set xs)"
    by blast
next
  assume h: "xs = [] \<and> a \<noteq> b \<and> 0 \<le> b \<and> b < 2 ^ 64"
  then have b: "0 \<le> b" "b < 2 ^ 64" by auto
  from toggle_breakpoint_tags[OF assms] h obtain bv1 where
    t1: "toggle_breakpoint bv a = Inr bv1" and g1: "get_bp_tags bv1 = Inr [a]"
    by auto
  from toggle_breakpoint_tags[OF g1 b] h obtain bv2 where
    t2: "toggle_breakpoint bv1 b = Inr bv2" and g2: "get_bp_tags bv2 = Inr [a, b]"
    by auto
  from toggle_breakpoint_tags[OF g2 assms(2,3)] h obtain bv3 where
    t3: "toggle_breakpoint bv2 a = Inr bv3" and g3: "get_bp_tags bv3 = Inr [b]"
    by auto
  show "and_then (toggle_all bv [a, b, a]) get_bp_tags = Inr [b]"
    by (simp add: t1 t2 t3 g3 and_then_def)
qed

text \<open>
  Claim C10. When no address occurs twice in the result of \<open>get_bp_tags\<close>, the same holds
  after \<open>toggle_breakpoint\<close> at an address, and after any run of toggles at addresses; a
  view without breakpoint tags is the case where \<open>xs\<close> is empty. An address is an integer
  from 0 up to, and not including, \<open>2 ^ 64\<close>.
\<close>

theorem toggle_breakpoint_no_duplicates:
  assumes "get_bp_tags bv = Inr xs" and "distinct xs"
    and "0 \<le> a" and "a < 2 ^ 64" and "\<forall>x \<in> set as. 0 \<le> x \<and> x < 2 ^ 64"
  shows "(\<exists>bv' ys. toggle_breakpoint bv a = Inr bv' \<and> get_bp_tags bv' = Inr ys \<and> distinct ys) \<and>
         (\<exists>bv' ys. toggle_all bv as = Inr bv' \<and> get_bp_tags bv' = Inr ys \<and> distinct ys)"
  using toggle_breakpoint_distinct[OF assms(1-4)] toggle_all_distinct[OF assms(1,2,5)] by blast

lemma clear_pc_tag_eq:
  assumes "tag_types bv ''pwndbg-pc'' = Some i"
  shows "clear_pc_tag bv =
     Inr (bv\<lparr>tag_refs := filter (\<lambda>t. ref_tag_type t \<noteq> ''pwndbg-pc'') (tag_refs bv)\<rparr>)"
proof -
  have "filter (\<lambda>t. t \<notin> set (filter (\<lambda>t. ref_tag_type t = ''pwndbg-pc'') (tag_refs bv))) (tag_refs bv)
        = filter (\<lambda>t. ref_tag_type t \<noteq> ''pwndbg-pc'') (tag_refs bv)"
    by (auto intro: filter_cong)
  moreover have "get_tag_refs bv ''pwndbg-pc'' =
      Inr (filter (\<lambda>t. ref_tag_type t = ''pwndbg-pc'') (tag_refs bv))"
    using assms by (simp add: get_tag_refs_def get_tag_type_def)
  ultimately show ?thesis
    by (simp add: clear_pc_tag_def and_then_def fold_remove_tag_ref)
qed

lemma update_pc_tag_eq:
  assumes "tag_types bv ''pwndbg-pc'' = Some i"
  shows "update_pc_tag bv a =
     Inr (bv\<lparr>tag_refs := filter (\<lambda>t. ref_tag_type t \<noteq> ''pwndbg-pc'') (tag_refs bv) @
                 [\<lparr>ref_tag_type = ''pwndbg-pc'', ref_tag_id = next_tag_id bv,
                   ref_data = ''current pc'', ref_auto = True, ref_addr = word_of_int a\<rparr>],
             next_tag_id := Suc (next_tag_id bv)\<rparr>)"
  using assms
  by (simp add: update_pc_tag_def clear_pc_tag_eq[OF assms] and_then_def add_auto_tag_def
      get_tag_type_def)

lemma update_pc_tag_wraps:
  "\<exists>bv1 r1. update_pc_tag (init empty_view) (-4096) = Inr bv1 \<and>
     get_tag_refs bv1 ''pwndbg-pc'' = Inr [r1] \<and> uint (ref_addr r1) = 18446744073709547520"
proof -
  have reg: "tag_types (init empty_view) ''pwndbg-pc'' = Some pc_icon"
    by (simp add: init_def empty_view_def create_tag_type_def)
  have "uint (word_of_int (-4096) :: 64 word) = 18446744073709547520"
    by (simp add: uint_word_of_int)
  then show ?thesis
    using reg by (simp add: update_pc_tag_eq[OF reg] get_tag_refs_def get_tag_type_def)
qed

text \<open>
  Claim C3. In a view where the PC tag type is registered, whatever its tags are, and for
  an address \<open>a\<close>, an integer from 0 up to, and not including, \<open>2 ^ 64\<close>: \<open>update_pc_tag\<close> at
  \<open>a\<close> returns, afterwards there is exactly one PC tag, it is at \<open>a\<close>, and the tags of
  other types are the ones there were before; the same holds after a second
  \<open>update_pc_tag\<close> at \<open>a\<close>.
\<close>

theorem update_pc_tag_single:
  assumes "get_tag_refs bv ''pwndbg-pc'' = Inr rs" and "0 \<le> a" and "a < 2 ^ 64"
  shows "\<exists>bv1 r1. update_pc_tag bv a = Inr bv1 \<and>
           get_tag_refs bv1 ''pwndbg-pc'' = Inr [r1] \<and> uint (ref_addr r1) = a \<and>
           filter (\<lambda>t. ref_tag_type t \<noteq> ''pwndbg-pc'') (tag_refs bv1) =
             filter (\<lambda>t. ref_tag_type t \<noteq> ''pwndbg-pc'') (tag_refs bv) \<and>
           (\<exists>bv2 r2. update_pc_tag bv1 a = Inr bv2 \<and>
              get_tag_refs bv2 ''pwndbg-pc'' = Inr [r2] \<and> uint (ref_addr r2) = a)"
proof -
  from assms(1) obtain i where reg: "tag_types bv ''pwndbg-pc'' = Some i"
    by (auto simp add: get_tag_refs_def get_tag_type_def split: option.splits)
  let ?bv1 = "bv\<lparr>tag_refs := filter (\<lambda>t. ref_tag_type t \<noteq> ''pwndbg-pc'') (tag_refs bv) @
                 [\<lparr>ref_tag_type = ''pwndbg-pc'', ref_tag_id = next_tag_id bv,
                   ref_data = ''current pc'', ref_auto = True, ref_addr = word_of_int a\<rparr>],
             next_tag_id := Suc (next_tag_id bv)\<rparr>"
  have reg1: "tag_types ?bv1 ''pwndbg-pc'' = Some i" using reg by simp
  have stored: "uint (word_of_int a :: 64 word) = a"
    using assms(2,3) by (simp add: uint_word_of_int)
  show ?thesis
    using reg stored
    by (simp add: update_pc_tag_eq[OF reg] update_pc_tag_eq[OF reg1] get_tag_refs_def
        get_tag_type_def)
qed

theorem toggle_breakpoint_twice_witness:
  "get_bp_tags (init empty_view) = Inr [] \<and> (0::int) \<le> 4096 \<and> (4096::int) < 2 ^ 64 \<and>
   (\<exists>bv1. toggle_breakpoint (init empty_view) 4096 = Inr bv1 \<and> get_bp_tags bv1 = Inr [4096] \<and>
      (\<exists>bv2 ys. toggle_breakpoint bv1 4096 = Inr bv2 \<and> get_bp_tags bv2 = Inr ys \<and> set ys = {})) \<and>
   and_then (toggle_all (init empty_view) [4096, 8192, 4096]) get_bp_tags = Inr [8192]"
proof -
  have h: "get_bp_tags (init empty_view) = Inr []"
    by (simp add: get_bp_tags_def and_then_def get_tag_refs_def get_tag_type_def init_def
        empty_view_def create_tag_type_def)
  have lo: "(0::int) \<le> 4096" by simp
  have hi: "(4096::int) < 2 ^ 64" by simp
  show ?thesis
    using h toggle_breakpoint_twice[OF h lo hi, of 8192] by simp
qed

theorem toggle_breakpoint_no_duplicates_witness:
  "get_bp_tags (init empty_view) = Inr [] \<and> distinct ([] :: int list) \<and>
   (0::int) \<le> 4096 \<and> (4096::int) < 2 ^ 64 \<and>
   list_all (\<lambda>x. 0 \<le> x \<and> x < 2 ^ 64) [4096, 8192, 4096, 4096 :: int] \<and>
   (\<exists>bv' ys. toggle_breakpoint (init empty_view) 4096 = Inr bv' \<and> get_bp_tags bv' = Inr ys \<and>
      distinct ys) \<and>
   (\<exists>bv' ys. toggle_all (init empty_view) [4096, 8192, 4096, 4096] = Inr bv' \<and>
      get_bp_tags bv' = Inr ys \<and> distinct ys)"
proof -
  have h: "get_bp_tags (init empty_view) = Inr []"
    by (simp add: get_bp_tags_def and_then_def get_tag_refs_def get_tag_type_def init_def
        empty_view_def create_tag_type_def)
  have d: "distinct ([] :: int list)" by simp
  have lo: "(0::int) \<le> 4096" by simp
  have hi: "(4096::int) < 2 ^ 64" by simp
  have r: "\<forall>x \<in> set [4096, 8192, 4096, 4096 :: int]. 0 \<le> x \<and> x < 2 ^ 64" by simp
  show ?thesis
    using h toggle_breakpoint_no_duplicates[OF h d lo hi r] by simp
qed

theorem update_pc_tag_single_witness:
  "get_tag_refs (init empty_view) ''pwndbg-pc'' = Inr [] \<and>
   (0::int) \<le> 4096 \<and> (4096::int) < 2 ^ 64 \<and>
   (\<exists>bv1 r1. update_pc_tag (init empty_view) 4096 = Inr bv1 \<and>
      get_tag_refs bv1 ''pwndbg-pc'' = Inr [r1] \<and> uint (ref_addr r1) = 4096 \<and>
      (\<exists>bv2 r2. update_pc_tag bv1 4096 = Inr bv2 \<and>
         get_tag_refs bv2 ''pwndbg-pc'' = Inr [r2] \<and> uint (ref_addr r2) = 4096))"
proof -
  have h: "get_tag_refs (init empty_view) ''pwndbg-pc'' = Inr []"
    by (simp add: get_tag_refs_def get_tag_type_def init_def empty_view_def create_tag_type_def)
  have lo: "(0::int) \<le> 4096" by simp
  have hi: "(4096::int) < 2 ^ 64" by simp
  show ?thesis
    using h update_pc_tag_single[OF h lo hi] by auto
qed

section \<open>Queries: functions, types, comments\<close>

lemma py_min_mem: "py_min key m xs \<in> set (m # xs)"
  by (induction xs arbitrary: m) auto

lemma py_min_le: "x \<in> set (m # xs) \<Longrightarrow> key (py_min key m xs) \<le> key x"
proof (induction xs arbitrary: m x)
  case Nil
  then show ?case by simp
next
  case (Cons y ys)
  let ?m = "if key y < key m then y else m"
  have le: "key (py_min key ?m ys) \<le> key ?m"
    by (rule Cons.IH) simp
  from Cons.prems consider "x = m" | "x = y" | "x \<in> set ys" by auto
  then show ?case
  proof cases
    case 1
    with le show ?thesis by (simp split: if_splits)
  next
    case 2
    with le show ?thesis by (simp split: if_splits)
  next
    case 3
    then have "key (py_min key ?m ys) \<le> key x" by (intro Cons.IH) simp
    then show ?thesis by simp
  qed
qed

lemma get_widest_func_None:
  "get_widest_func bv addr = None \<longleftrightarrow> get_functions_containing bv addr = []"
  by (simp add: get_widest_func_def Let_def)

lemma get_widest_func_Some:
  assumes "get_widest_func bv addr = Some f"
  shows "f \<in> set (get_functions_containing bv addr) \<and>
         (\<forall>g \<in> set (get_functions_containing bv addr). start f \<le> start g)"
proof -
  let ?fs = "get_functions_containing bv addr"
  from assms have ne: "?fs \<noteq> []" and f: "f = py_min start (hd ?fs) (tl ?fs)"
    by (auto simp add: get_widest_func_def Let_def split: if_splits)
  from ne have eq: "hd ?fs # tl ?fs = ?fs" by simp
  have "f \<in> set (hd ?fs # tl ?fs)" unfolding f by (rule py_min_mem)
  moreover have "\<forall>g \<in> set (hd ?fs # tl ?fs). start f \<le> start g"
    unfolding f by (intro ballI py_min_le)
  ultimately show ?thesis unfolding eq by blast
qed

text \<open>
  Claim C4. \<open>get_func_info\<close> returns nothing exactly when no function of the view contains
  the address. When it returns a pair, the pair is the symbol name and the start of a
  function that contains the address, and no function containing the address starts lower.
  With \<open>F1\<close> from 0x1000 up to 0x2000 and \<open>F2\<close> from 0x1500 up to 0x1800, the answer at
  0x1600 is \<open>F1\<close>.
\<close>

theorem get_func_info_widest:
  "(get_func_info bv addr = None \<longleftrightarrow> (\<forall>f \<in> set (bv_functions bv). \<not> func_contains f addr)) \<and>
   (\<forall>r. get_func_info bv addr = Some r \<longrightarrow>
      (\<exists>f \<in> set (bv_functions bv). func_contains f addr \<and> r = (symbol_full_name f, start f) \<and>
         (\<forall>g \<in> set (bv_functions bv). func_contains g addr \<longrightarrow> start f \<le> start g))) \<and>
   get_func_info example_view 0x1600 = Some (symbol_full_name example_f1, start example_f1)"
proof (intro conjI allI impI)
  show "get_func_info bv addr = None \<longleftrightarrow> (\<forall>f \<in> set (bv_functions bv). \<not> func_contains f addr)"
  proof -
    have "get_func_info bv addr = None \<longleftrightarrow> get_widest_func bv addr = None"
      by (simp add: get_func_info_def split: option.splits)
    also have "\<dots> \<longleftrightarrow> get_functions_containing bv addr = []"
      by (rule get_widest_func_None)
    also have "\<dots> \<longleftrightarrow> (\<forall>f \<in> set (bv_functions bv). \<not> func_contains f addr)"
      by (simp add: get_functions_containing_def filter_empty_conv)
    finally show ?thesis .
  qed
next
  fix r assume "get_func_info bv addr = Some r"
  then obtain f where w: "get_widest_func bv addr = Some f" and r: "r = (symbol_full_name f, start f)"
    by (auto simp add: get_func_info_def split: option.splits)
  from get_widest_func_Some[OF w]
  have "f \<in> set (bv_functions bv)" "func_contains f addr"
    "\<forall>g \<in> set (bv_functions bv). func_contains g addr \<longrightarrow> start f \<le> start g"
    by (auto simp add: get_functions_containing_def)
  with r
  show "\<exists>f \<in> set (bv_functions bv). func_contains f addr \<and> r = (symbol_full_name f, start f) \<and>
         (\<forall>g \<in> set (bv_functions bv). func_contains g addr \<longrightarrow> start f \<le> start g)"
    by blast
next
  show "get_func_info example_view 0x1600 = Some (symbol_full_name example_f1, start example_f1)"
    by (simp add: get_func_info_def get_widest_func_def get_functions_containing_def
        func_contains_def example_view_def example_f1_def example_f2_def empty_view_def)
qed

theorem get_func_info_widest_witness:
  "get_func_info example_view 0x1600 = Some (''F1'', 0x1000) \<and>
   (\<exists>f \<in> set (bv_functions example_view). func_contains f 0x1600 \<and>
      (''F1'', 0x1000) = (symbol_full_name f, start f) \<and>
      list_all (\<lambda>g. \<not> func_contains g 0x1600 \<or> start f \<le> start g) (bv_functions example_view))"
proof -
  have h: "get_func_info example_view 0x1600 = Some (''F1'', 0x1000)"
    by (simp add: get_func_info_def get_widest_func_def get_functions_containing_def
        func_contains_def example_view_def example_f1_def example_f2_def empty_view_def)
  from get_func_info_widest[of example_view "0x1600", THEN conjunct2, THEN conjunct1,
      THEN spec, THEN mp, OF h]
  have "\<exists>f \<in> set (bv_functions example_view). func_contains f 0x1600 \<and>
      (''F1'', 0x1000) = (symbol_full_name f, start f) \<and>
      (\<forall>g \<in> set (bv_functions example_view). func_contains g 0x1600 \<longrightarrow> start f \<le> start g)" .
  then show ?thesis using h by (auto simp add: list_all_iff)
qed

lemma count_pointers_loop_eq:
  "count_pointers_loop ty n = (leaf_type ty, n + int (pointer_depth ty))"
  by (induction ty arbitrary: n) auto

lemma count_pointers_eq:
  "count_pointers ty = (str_type (leaf_type ty), int (pointer_depth ty))"
  by (simp add: count_pointers_def count_pointers_loop_eq)

lemma leaf_type_not_pointer: "\<exists>s. leaf_type ty = OtherType s"
  by (induction ty) auto

lemma pointer_depth_wraps: "(PointerType ^^ pointer_depth ty) (leaf_type ty) = ty"
  by (induction ty) auto

lemma get_function_at_None:
  "get_function_at bv addr = None \<longleftrightarrow> (\<forall>f \<in> set (bv_functions bv). start f \<noteq> addr)"
  by (auto simp add: get_function_at_def find_None_iff)

lemma get_function_at_Some:
  "get_function_at bv addr = Some f \<Longrightarrow> f \<in> set (bv_functions bv) \<and> start f = addr"
  by (auto simp add: get_function_at_def find_Some_iff)

text \<open>
  Claim C5. \<open>get_func_type\<close> returns nothing exactly when no function of the view starts at
  the address, also when the address lies inside a function, as 0x1600 lies inside \<open>F1\<close>.
  When it returns, a function starts at the address, and the result is the leaf type name,
  the pointer depth and the function's name for the return type, and the same triple with
  the parameter's name for each parameter, in order. The loop of \<open>count_pointers\<close> computes
  the printed leaf and the depth, where the depth is the number of pointer wrappers around
  the leaf and the leaf is not a pointer.
\<close>

theorem get_func_type_exact:
  "(get_func_type bv addr = None \<longleftrightarrow> (\<forall>f \<in> set (bv_functions bv). start f \<noteq> addr)) \<and>
   (\<forall>r. get_func_type bv addr = Some r \<longrightarrow>
      (\<exists>f \<in> set (bv_functions bv). start f = addr \<and>
         r = ((str_type (leaf_type (return_type f)), int (pointer_depth (return_type f)), name f),
              map (\<lambda>arg. (str_type (leaf_type (var_type arg)), int (pointer_depth (var_type arg)),
                           var_name arg)) (parameter_vars f)))) \<and>
   (count_pointers ty = (str_type (leaf_type ty), int (pointer_depth ty)) \<and>
    (PointerType ^^ pointer_depth ty) (leaf_type ty) = ty \<and> (\<exists>s. leaf_type ty = OtherType s)) \<and>
   (func_contains example_f1 0x1600 \<and> get_func_type example_view 0x1600 = None)"
proof (intro conjI allI impI)
  have "get_func_type bv addr = None \<longleftrightarrow> get_function_at bv addr = None"
    by (simp add: get_func_type_def Let_def split: option.splits)
  then show "get_func_type bv addr = None \<longleftrightarrow> (\<forall>f \<in> set (bv_functions bv). start f \<noteq> addr)"
    by (simp add: get_function_at_None)
next
  fix r assume "get_func_type bv addr = Some r"
  then obtain f where at: "get_function_at bv addr = Some f"
    and r: "r = ((str_type (leaf_type (return_type f)), int (pointer_depth (return_type f)), name f),
              map (\<lambda>arg. (str_type (leaf_type (var_type arg)), int (pointer_depth (var_type arg)),
                           var_name arg)) (parameter_vars f))"
    by (auto simp add: get_func_type_def Let_def count_pointers_eq split: option.splits)
  from get_function_at_Some[OF at] r
  show "\<exists>f \<in> set (bv_functions bv). start f = addr \<and>
         r = ((str_type (leaf_type (return_type f)), int (pointer_depth (return_type f)), name f),
              map (\<lambda>arg. (str_type (leaf_type (var_type arg)), int (pointer_depth (var_type arg)),
                           var_name arg)) (parameter_vars f))"
    by blast
next
  show "count_pointers ty = (str_type (leaf_type ty), int (pointer_depth ty))"
    by (rule count_pointers_eq)
  show "(PointerType ^^ pointer_depth ty) (leaf_type ty) = ty"
    by (rule pointer_depth_wraps)
  show "\<exists>s. leaf_type ty = OtherType s"
    by (rule leaf_type_not_pointer)
  show "func_contains example_f1 0x1600"
    by (simp add: func_contains_def example_f1_def)
  show "get_func_type example_view 0x1600 = None"
    by (simp add: get_func_type_def get_function_at_def example_view_def example_f1_def
        example_f2_def empty_view_def)
qed

theorem get_func_type_exact_witness:
  "get_func_type example_view 0x1000 =
     Some ((''char'', 2, ''F1''), [(''int32_t'', 0, ''argc''), (''char'', 1, ''s'')]) \<and>
   (\<exists>f \<in> set (bv_functions example_view). start f = 0x1000 \<and>
      ((''char'', 2, ''F1''), [(''int32_t'', 0, ''argc''), (''char'', 1, ''s'')]) =
        ((str_type (leaf_type (return_type f)), int (pointer_depth (return_type f)), name f),
         map (\<lambda>arg. (str_type (leaf_type (var_type arg)), int (pointer_depth (var_type arg)),
                      var_name arg)) (parameter_vars f)))"
proof -
  have h: "get_func_type example_view 0x1000 =
     Some ((''char'', 2, ''F1''), [(''int32_t'', 0, ''argc''), (''char'', 1, ''s'')])"
    by (simp add: get_func_type_def get_function_at_def example_view_def example_f1_def
        example_f2_def empty_view_def count_pointers_def)
  from get_func_type_exact[of example_view "0x1000", THEN conjunct2, THEN conjunct1,
      THEN spec, THEN mp, OF h] h
  show ?thesis by blast
qed

lemma py_split_not_Nil: "py_split s sep \<noteq> []"
  by (induction s) (auto split: list.splits)

lemma py_split_no_sep: "sep \<notin> set (concat (py_split s sep))"
  by (induction s) (auto split: list.splits)

lemma py_split_joined: "concat (map (\<lambda>w. w @ [sep]) (py_split s sep)) = s @ [sep]"
  by (induction s) (auto split: list.splits)

lemma fold_append_concat:
  "fold (\<lambda>f ret. ret @ g f) fs acc = acc @ concat (map g fs)"
  by (induction fs arbitrary: acc) auto

text \<open>
  Claim C7. \<open>get_comments\<close> takes the comments of the functions containing the address, in
  ascending order of their starts, then the global comment; splits each at the newlines;
  drops the empty pieces; and puts the marker before each piece left. The split pieces of a
  string, each followed by the separator, give the string followed by the separator, and no
  piece contains the separator; so no entry of the result contains a newline. The comment
  \<open>a\<close>, newline, \<open>b\<close>, newline gives the two entries for \<open>a\<close> and \<open>b\<close>.
\<close>

theorem get_comments_lines:
  "get_comments bv addr =
     map (\<lambda>x. ''// '' @ x)
       (filter (\<lambda>x. x \<noteq> [])
          (concat (map (\<lambda>c. py_split c newline)
             (map (\<lambda>f. func_get_comment_at f addr)
                  (sort_key start (get_functions_containing bv addr)) @
              [bv_get_comment_at bv addr])))) \<and>
   sorted (map start (sort_key start (get_functions_containing bv addr))) \<and>
   set (sort_key start (get_functions_containing bv addr)) =
     {f \<in> set (bv_functions bv). func_contains f addr} \<and>
   length (sort_key start (get_functions_containing bv addr)) =
     length (get_functions_containing bv addr) \<and>
   (concat (map (\<lambda>w. w @ [sep]) (py_split s sep)) = s @ [sep] \<and>
    sep \<notin> set (concat (py_split s sep))) \<and>
   newline \<notin> set (concat (get_comments bv addr)) \<and>
   get_comments example_commented 0x1000 = [''// a'', ''// b''] \<and>
   get_comments example_nested_comments 0x1600 =
     [''// outer'', ''// more'', ''// inner'', ''// global'']"
proof (intro conjI)
  show eq: "get_comments bv addr =
     map (\<lambda>x. ''// '' @ x)
       (filter (\<lambda>x. x \<noteq> [])
          (concat (map (\<lambda>c. py_split c newline)
             (map (\<lambda>f. func_get_comment_at f addr)
                  (sort_key start (get_functions_containing bv addr)) @
              [bv_get_comment_at bv addr]))))"
    by (simp add: get_comments_def Let_def fold_append_concat comp_def)
  show "sorted (map start (sort_key start (get_functions_containing bv addr)))"
    by simp
  show "set (sort_key start (get_functions_containing bv addr)) =
     {f \<in> set (bv_functions bv). func_contains f addr}"
    by (simp add: get_functions_containing_def)
  show "length (sort_key start (get_functions_containing bv addr)) =
     length (get_functions_containing bv addr)"
    by simp
  show "concat (map (\<lambda>w. w @ [sep]) (py_split s sep)) = s @ [sep]"
    by (rule py_split_joined)
  show "sep \<notin> set (concat (py_split s sep))"
    by (rule py_split_no_sep)
  have "\<And>c. newline \<notin> set (concat (py_split c newline))" by (rule py_split_no_sep)
  then show "newline \<notin> set (concat (get_comments bv addr))"
    unfolding eq by (auto simp add: newline_def)
  show "get_comments example_commented 0x1000 = [''// a'', ''// b'']"
    by (simp add: get_comments_def get_functions_containing_def example_commented_def
        empty_view_def bv_get_comment_at_def newline_def)
  show "get_comments example_nested_comments 0x1600 =
     [''// outer'', ''// more'', ''// inner'', ''// global'']"
    by (simp add: get_comments_def get_functions_containing_def example_nested_comments_def
        empty_view_def bv_get_comment_at_def func_get_comment_at_def newline_def
        func_contains_def example_f1_def example_f2_def)
qed

lemma init_idem: "init (init bv) = init bv"
  by (simp add: init_def create_tag_type_def)

section \<open>The server: starting twice, stopping when stopped\<close>

text \<open>
  Claim C6. A start that follows a successful start, on the state and the view it left,
  changes neither. More generally, a start while the server runs leaves the plugin's state
  as it is and only initialises the view, which changes nothing in a view that is
  initialised. A stop while no server runs leaves the state as it is.
\<close>

theorem start_stop_server_noop:
  "(\<forall>g' bv'. start_server g bv = Inr (g', bv') \<longrightarrow> start_server g' bv' = Inr (g', bv')) \<and>
   (server g \<noteq> None \<longrightarrow> start_server g bv = Inr (g, init bv)) \<and>
   (server g \<noteq> None \<and> init bv = bv \<longrightarrow> start_server g bv = Inr (g, bv)) \<and>
   (server g = None \<longrightarrow> stop_server g bv = g)"
  by (auto simp add: start_server_def stop_server_def Let_def init_idem split: if_splits)

theorem start_stop_server_noop_witness:
  "(\<exists>g1. start_server initial_plugin empty_view = Inr (g1, init empty_view) \<and>
      server g1 \<noteq> None \<and> init (init empty_view) = init empty_view \<and>
      start_server g1 (init empty_view) = Inr (g1, init empty_view)) \<and>
   server initial_plugin = None \<and>
   stop_server initial_plugin empty_view = initial_plugin"
proof -
  have "\<exists>g1. start_server initial_plugin empty_view = Inr (g1, init empty_view) \<and>
          server g1 \<noteq> None"
    by (simp add: start_server_def initial_plugin_def Let_def)
  then obtain g1 where s: "start_server initial_plugin empty_view = Inr (g1, init empty_view)"
    and run: "server g1 \<noteq> None"
    by blast
  have idem: "init (init empty_view) = init empty_view"
    by (rule init_idem)
  have again: "start_server g1 (init empty_view) = Inr (g1, init empty_view)"
    using start_stop_server_noop[of g1 "init empty_view"] run idem by simp
  have none: "server initial_plugin = None"
    by (simp add: initial_plugin_def)
  have stop: "stop_server initial_plugin empty_view = initial_plugin"
    using start_stop_server_noop[of initial_plugin empty_view] none by simp
  from s run idem again none stop show ?thesis by blast
qed

section \<open>Address translation: the two directions are inverse\<close>

text \<open>
  Claim C8. For every context and every address, translating to the static address and back
  gives the address, and so does translating to the runtime address and back.
\<close>

theorem translation_inverse:
  "to_runtime ctx (to_static ctx x) = x \<and> to_static ctx (to_runtime ctx x) = x"
  by (simp add: to_runtime_def to_static_def)

section \<open>Events: clearing runs first, the wiring of the groups\<close>

lemma insort_key_first:
  "(\<And>y. y \<in> set ys \<Longrightarrow> f x \<le> f y) \<Longrightarrow> insort_key f x ys = x # ys"
  by (cases ys) auto

lemma insort_key_past:
  "\<forall>a \<in> set as. f a < f x \<Longrightarrow> insort_key f x (as @ bs) = as @ insort_key f x bs"
  by (induction as) (auto simp add: not_le[symmetric])

lemma sort_key_least_first:
  fixes f :: "'a \<Rightarrow> int"
  assumes "\<And>x. x \<in> set xs \<Longrightarrow> p \<le> f x"
  shows "sort_key f xs =
           filter (\<lambda>x. f x = p) xs @ sort_key f (filter (\<lambda>x. f x \<noteq> p) xs)"
  using assms
proof (induction xs)
  case Nil
  show ?case by simp
next
  case (Cons x xs)
  let ?A = "filter (\<lambda>x. f x = p) xs"
  let ?S = "sort_key f (filter (\<lambda>x. f x \<noteq> p) xs)"
  have IH: "sort_key f xs = ?A @ ?S"
    by (rule Cons.IH) (simp add: Cons.prems)
  have step: "sort_key f (x # xs) = insort_key f x (?A @ ?S)"
    by (simp add: IH)
  show ?case
  proof (cases "f x = p")
    case True
    have "\<And>y. y \<in> set (?A @ ?S) \<Longrightarrow> f x \<le> f y"
      using True Cons.prems by auto
    then have "insort_key f x (?A @ ?S) = x # ?A @ ?S"
      by (rule insort_key_first)
    with step True show ?thesis by simp
  next
    case False
    then have "p < f x" using Cons.prems[of x] by simp
    then have "\<forall>a \<in> set ?A. f a < f x" by simp
    then have "insort_key f x (?A @ ?S) = ?A @ insort_key f x ?S"
      by (rule insort_key_past)
    with step False show ?thesis by simp
  qed
qed

lemma fold_register_events:
  "fold (\<lambda>e b. register b e h p) evs bus =
     bus @ map (\<lambda>e. \<lparr>reg_event = e, reg_priority = p, reg_handler = h\<rparr>) evs"
  by (induction evs arbitrary: bus) (simp_all add: register_def)

lemma connect_clear_caching_events_eq:
  "connect_clear_caching_events event_dicts priority bus =
     bus @ clear_registrations event_dicts priority"
proof (induction event_dicts arbitrary: bus)
  case Nil
  show ?case by (simp add: connect_clear_caching_events_def clear_registrations_def)
next
  case (Cons d ds)
  obtain g evs where d: "d = (g, evs)" by (cases d)
  have "connect_clear_caching_events (d # ds) priority bus =
        connect_clear_caching_events ds priority
          (fold (\<lambda>e b. register b e (Clear_group g) priority) evs bus)"
    by (simp add: connect_clear_caching_events_def d)
  also have "\<dots> = fold (\<lambda>e b. register b e (Clear_group g) priority) evs bus @
        clear_registrations ds priority"
    by (rule Cons.IH)
  also have "\<dots> = bus @ clear_registrations (d # ds) priority"
    by (simp add: fold_register_events clear_registrations_def d)
  finally show ?case .
qed

lemma register_all_eq: "register_all rs bus = bus @ rs"
  by (induction rs arbitrary: bus) (simp_all add: register_all_def register_def)

lemma clear_registrations_priority:
  "r \<in> set (clear_registrations event_dicts priority) \<Longrightarrow> reg_priority r = priority"
  by (auto simp add: clear_registrations_def)

lemma filter_clear_registrations:
  "filter (\<lambda>r. reg_event r = e) (clear_registrations event_dicts priority) =
     map (\<lambda>g. \<lparr>reg_event = e, reg_priority = priority, reg_handler = Clear_group g\<rparr>)
       (groups_triggered_by event_dicts e)"
proof (induction event_dicts)
  case Nil
  show ?case by (simp add: clear_registrations_def groups_triggered_by_def)
next
  case (Cons d ds)
  obtain g evs where d: "d = (g, evs)" by (cases d)
  have one: "filter (\<lambda>r. reg_event r = e)
          (map (\<lambda>e. \<lparr>reg_event = e, reg_priority = priority, reg_handler = Clear_group g\<rparr>) evs) =
        map (\<lambda>g. \<lparr>reg_event = e, reg_priority = priority, reg_handler = Clear_group g\<rparr>)
          (map (\<lambda>_. g) (filter (\<lambda>x. x = e) evs))"
    by (induction evs) auto
  have "clear_registrations (d # ds) priority =
        map (\<lambda>e. \<lparr>reg_event = e, reg_priority = priority, reg_handler = Clear_group g\<rparr>) evs @
        clear_registrations ds priority"
    by (simp add: clear_registrations_def d)
  moreover have "groups_triggered_by (d # ds) e =
        map (\<lambda>_. g) (filter (\<lambda>x. x = e) evs) @ groups_triggered_by ds e"
    by (simp add: groups_triggered_by_def d)
  ultimately show ?case
    using Cons.IH one by simp
qed

lemma handlers_for_clear_first:
  assumes "\<And>r. r \<in> set (pre @ post) \<Longrightarrow> priority < reg_priority r"
  shows "handlers_for (pre @ clear_registrations event_dicts priority @ post) e =
           map (\<lambda>g. \<lparr>reg_event = e, reg_priority = priority, reg_handler = Clear_group g\<rparr>)
             (groups_triggered_by event_dicts e) @
           handlers_for (pre @ post) e"
proof -
  let ?ev = "\<lambda>r. reg_event r = e"
  let ?C = "clear_registrations event_dicts priority"
  let ?xs = "filter ?ev (pre @ ?C @ post)"
  have least: "\<And>r. r \<in> set ?xs \<Longrightarrow> priority \<le> reg_priority r"
    using assms clear_registrations_priority[of _ event_dicts priority] by fastforce
  have pre_ne: "filter (\<lambda>r. reg_priority r = priority) (filter ?ev pre) = []"
    "filter (\<lambda>r. reg_priority r \<noteq> priority) (filter ?ev pre) = filter ?ev pre"
    using assms by (fastforce intro: filter_False filter_True)+
  have post_ne: "filter (\<lambda>r. reg_priority r = priority) (filter ?ev post) = []"
    "filter (\<lambda>r. reg_priority r \<noteq> priority) (filter ?ev post) = filter ?ev post"
    using assms by (fastforce intro: filter_False filter_True)+
  have C_eq: "filter (\<lambda>r. reg_priority r = priority) (filter ?ev ?C) = filter ?ev ?C"
    "filter (\<lambda>r. reg_priority r \<noteq> priority) (filter ?ev ?C) = []"
    using clear_registrations_priority[of _ event_dicts priority]
    by (fastforce intro: filter_False filter_True)+
  have split: "?xs = filter ?ev pre @ filter ?ev ?C @ filter ?ev post"
    by simp
  have eq: "filter (\<lambda>r. reg_priority r = priority) ?xs = filter ?ev ?C"
    unfolding split filter_append pre_ne post_ne C_eq by simp
  have ne: "filter (\<lambda>r. reg_priority r \<noteq> priority) ?xs = filter ?ev (pre @ post)"
    unfolding split filter_append pre_ne post_ne C_eq by simp
  have "handlers_for (pre @ ?C @ post) e = sort_key reg_priority ?xs"
    by (simp add: handlers_for_def)
  also have "\<dots> = filter (\<lambda>r. reg_priority r = priority) ?xs @
        sort_key reg_priority (filter (\<lambda>r. reg_priority r \<noteq> priority) ?xs)"
    using least by (rule sort_key_least_first)
  also have "\<dots> = filter ?ev ?C @ handlers_for (pre @ post) e"
    unfolding eq ne by (simp add: handlers_for_def)
  finally show ?thesis
    by (simp add: filter_clear_registrations)
qed

lemma fold_run_clear:
  "fold run_handler (map (\<lambda>g. Clear_group g) gs) (cs, n) = (fold clear_group gs cs, n)"
  by (induction gs arbitrary: cs) auto

lemma length_clear_group: "length (clear_group g cs) = length cs"
  by (simp add: clear_group_def)

lemma groups_clear_group: "map groups (clear_group g cs) = map groups cs"
  by (simp add: clear_group_def)

lemma clear_group_empties:
  "c \<in> set (clear_group g cs) \<Longrightarrow> g \<in> set (groups c) \<Longrightarrow> entries c = []"
  by (auto simp add: clear_group_def split: if_splits)

lemma clear_group_keeps:
  "i < length cs \<Longrightarrow> g \<notin> set (groups (cs ! i)) \<Longrightarrow> clear_group g cs ! i = cs ! i"
  by (simp add: clear_group_def)

lemma fold_clear_group_keeps:
  "i < length cs \<Longrightarrow> set gs \<inter> set (groups (cs ! i)) = {} \<Longrightarrow>
   fold clear_group gs cs ! i = cs ! i"
proof (induction gs arbitrary: cs)
  case Nil
  show ?case by simp
next
  case (Cons g gs)
  have keep: "clear_group g cs ! i = cs ! i"
    using Cons.prems by (intro clear_group_keeps) auto
  have "fold clear_group gs (clear_group g cs) ! i = clear_group g cs ! i"
    using Cons.prems keep by (intro Cons.IH) (auto simp add: length_clear_group)
  with keep show ?case by simp
qed

lemma dispatch_clear_first:
  assumes "\<And>r. r \<in> set (pre @ post) \<Longrightarrow> priority < reg_priority r"
  shows "dispatch (pre @ clear_registrations event_dicts priority @ post) e (cs, n) =
           fold run_handler (map reg_handler (handlers_for (pre @ post) e))
             (fold clear_group (groups_triggered_by event_dicts e) cs, n)"
proof -
  let ?gs = "groups_triggered_by event_dicts e"
  let ?rest = "map reg_handler (handlers_for (pre @ post) e)"
  have "map reg_handler (handlers_for (pre @ clear_registrations event_dicts priority @ post) e) =
        map (\<lambda>g. Clear_group g) ?gs @ ?rest"
  proof -
    have "handlers_for (pre @ clear_registrations event_dicts priority @ post) e =
           map (\<lambda>g. \<lparr>reg_event = e, reg_priority = priority, reg_handler = Clear_group g\<rparr>) ?gs @
           handlers_for (pre @ post) e"
      using assms by (rule handlers_for_clear_first)
    then show ?thesis by (simp add: comp_def)
  qed
  then have "dispatch (pre @ clear_registrations event_dicts priority @ post) e (cs, n) =
        fold run_handler (map (\<lambda>g. Clear_group g) ?gs @ ?rest) (cs, n)"
    by (simp only: dispatch_def)
  also have "\<dots> = fold run_handler ?rest (fold run_handler (map (\<lambda>g. Clear_group g) ?gs) (cs, n))"
    by simp
  also have "\<dots> = fold run_handler ?rest (fold clear_group ?gs cs, n)"
    by (simp only: fold_run_clear)
  finally show ?thesis .
qed

lemma stop_triggers: "groups_triggered_by cache_groups Stop = [''stop'']"
  by (simp add: groups_triggered_by_def cache_groups_def)

lemma forever_not_triggered: "''forever'' \<notin> set (groups_triggered_by cache_groups e)"
  by (cases e) (simp_all add: groups_triggered_by_def cache_groups_def)

lemma set_groups_triggered_by:
  "set (groups_triggered_by event_dicts e) = {g. \<exists>evs. (g, evs) \<in> set event_dicts \<and> e \<in> set evs}"
  by (induction event_dicts) (auto simp add: groups_triggered_by_def)

lemma hooks_bus_eq:
  "register_all post (connect_clear_caching_events event_dicts priority pre) =
     pre @ clear_registrations event_dicts priority @ post"
  by (simp add: register_all_eq connect_clear_caching_events_eq)

text \<open>
  Claim C1. The bus holds the handlers registered before the registry's call, the clearing
  handlers the registry registers for the wiring of hooks.py at the reserved priority, and
  the handlers registered after it; the priority is reserved, so every other registration
  has a priority after it. Then, for every event, the ordered handlers of the event are the
  clearing handlers of the groups the event triggers, followed by all the other handlers of
  the event, and every group that lists the event has its clearing handler among them. A
  dispatch of the stop event is the other handlers run on the caches cleared for group
  \<open>stop\<close>: in the state the first of them sees, every cache subscribed to \<open>stop\<close> is
  empty, and a cache subscribed only to \<open>forever\<close> is what it was.
\<close>

theorem cache_clear_runs_first:
  assumes "\<forall>r \<in> set (pre @ post). priority < reg_priority r"
  shows "handlers_for (register_all post (connect_clear_caching_events cache_groups priority pre)) e =
           map (\<lambda>g. \<lparr>reg_event = e, reg_priority = priority, reg_handler = Clear_group g\<rparr>)
             (groups_triggered_by cache_groups e) @
           handlers_for (pre @ post) e \<and>
         (\<forall>g evs. (g, evs) \<in> set cache_groups \<and> e \<in> set evs \<longrightarrow>
            g \<in> set (groups_triggered_by cache_groups e)) \<and>
         dispatch (register_all post (connect_clear_caching_events cache_groups priority pre))
             Stop (cs, n) =
           fold run_handler (map reg_handler (handlers_for (pre @ post) Stop))
             (clear_group ''stop'' cs, n) \<and>
         (\<forall>c \<in> set (clear_group ''stop'' cs). ''stop'' \<in> set (groups c) \<longrightarrow> entries c = []) \<and>
         length (clear_group ''stop'' cs) = length cs \<and>
         (\<forall>i < length cs. set (groups (cs ! i)) = {''forever''} \<longrightarrow>
            clear_group ''stop'' cs ! i = cs ! i)"
proof (intro conjI allI impI ballI)
  have later: "\<And>r. r \<in> set (pre @ post) \<Longrightarrow> priority < reg_priority r"
    using assms by blast
  show "handlers_for (register_all post (connect_clear_caching_events cache_groups priority pre)) e =
           map (\<lambda>g. \<lparr>reg_event = e, reg_priority = priority, reg_handler = Clear_group g\<rparr>)
             (groups_triggered_by cache_groups e) @
           handlers_for (pre @ post) e"
    unfolding hooks_bus_eq using later by (rule handlers_for_clear_first)
  have "dispatch (pre @ clear_registrations cache_groups priority @ post) Stop (cs, n) =
           fold run_handler (map reg_handler (handlers_for (pre @ post) Stop))
             (fold clear_group (groups_triggered_by cache_groups Stop) cs, n)"
    using later by (rule dispatch_clear_first)
  then show "dispatch (register_all post (connect_clear_caching_events cache_groups priority pre))
             Stop (cs, n) =
           fold run_handler (map reg_handler (handlers_for (pre @ post) Stop))
             (clear_group ''stop'' cs, n)"
    unfolding hooks_bus_eq by (simp add: stop_triggers)
next
  fix g evs assume "(g, evs) \<in> set cache_groups \<and> e \<in> set evs"
  then show "g \<in> set (groups_triggered_by cache_groups e)"
    unfolding set_groups_triggered_by by blast
next
  fix c assume "c \<in> set (clear_group ''stop'' cs)" and "''stop'' \<in> set (groups c)"
  then show "entries c = []" by (rule clear_group_empties)
next
  show "length (clear_group ''stop'' cs) = length cs" by (rule length_clear_group)
next
  fix i assume "i < length cs" and "set (groups (cs ! i)) = {''forever''}"
  then show "clear_group ''stop'' cs ! i = cs ! i"
    by (intro clear_group_keeps) auto
qed

theorem cache_clear_runs_first_witness:
  "list_all (\<lambda>r. 0 < reg_priority r) (example_handlers @ []) \<and>
   handlers_for (register_all [] (connect_clear_caching_events cache_groups 0 example_handlers)) Stop =
     [\<lparr>reg_event = Stop, reg_priority = 0, reg_handler = Clear_group ''stop''\<rparr>,
      \<lparr>reg_event = Stop, reg_priority = 10, reg_handler = Feature stale_check\<rparr>] \<and>
   dispatch (register_all [] (connect_clear_caching_events cache_groups 0 example_handlers))
       Stop (example_caches, 0) =
     ([\<lparr>groups = [''stop''], entries = []\<rparr>, \<lparr>groups = [''forever''], entries = [(3, 4)]\<rparr>], 0)"
proof -
  have h: "\<forall>r \<in> set (example_handlers @ []). 0 < reg_priority r"
    by (simp add: example_handlers_def)
  have hs: "handlers_for (example_handlers @ []) Stop = example_handlers"
    by (simp add: handlers_for_def example_handlers_def)
  note main = cache_clear_runs_first[OF h, of Stop example_caches 0]
  have order: "handlers_for (register_all [] (connect_clear_caching_events cache_groups 0 example_handlers)) Stop =
     [\<lparr>reg_event = Stop, reg_priority = 0, reg_handler = Clear_group ''stop''\<rparr>,
      \<lparr>reg_event = Stop, reg_priority = 10, reg_handler = Feature stale_check\<rparr>]"
    using main[THEN conjunct1] unfolding hs stop_triggers by (simp add: example_handlers_def)
  have run: "dispatch (register_all [] (connect_clear_caching_events cache_groups 0 example_handlers))
       Stop (example_caches, 0) =
     ([\<lparr>groups = [''stop''], entries = []\<rparr>, \<lparr>groups = [''forever''], entries = [(3, 4)]\<rparr>], 0)"
    using main[THEN conjunct2, THEN conjunct2, THEN conjunct1] unfolding hs
    by (simp add: example_handlers_def example_caches_def clear_group_def stale_check_def)
  from h order run show ?thesis by (simp add: list_all_iff)
qed

text \<open>
  Claim C9. The dictionary of hooks.py maps \<open>stop\<close> to the stop, memory-changed and
  register-changed events, \<open>exit\<close> to the exit event, \<open>objfile\<close> to the new-objfile event,
  \<open>start\<close> to the start event, \<open>cont\<close> to the continue, memory-changed and
  register-changed events, \<open>thread\<close> to the thread event, \<open>prompt\<close> to the before-prompt
  event and \<open>forever\<close> to no event, and has no other group. No event triggers \<open>forever\<close>,
  and the dispatch of any event on the registry's handlers leaves a cache subscribed only to
  \<open>forever\<close> as it was.
\<close>

theorem cache_groups_wiring:
  "map_of cache_groups ''stop'' = Some [Stop, Mem_changed, Reg_changed] \<and>
   map_of cache_groups ''exit'' = Some [Exit] \<and>
   map_of cache_groups ''objfile'' = Some [New_objfile] \<and>
   map_of cache_groups ''start'' = Some [Start] \<and>
   map_of cache_groups ''cont'' = Some [Cont, Mem_changed, Reg_changed] \<and>
   map_of cache_groups ''thread'' = Some [Thread] \<and>
   map_of cache_groups ''prompt'' = Some [Before_prompt] \<and>
   map_of cache_groups ''forever'' = Some [] \<and>
   map fst cache_groups =
     [''stop'', ''exit'', ''objfile'', ''start'', ''cont'', ''thread'', ''prompt'', ''forever''] \<and>
   ''forever'' \<notin> set (groups_triggered_by cache_groups e) \<and>
   (\<forall>i < length cs. set (groups (cs ! i)) = {''forever''} \<longrightarrow>
      fst (dispatch (connect_clear_caching_events cache_groups priority []) e (cs, n)) ! i = cs ! i)"
proof (intro conjI allI impI)
  show "''forever'' \<notin> set (groups_triggered_by cache_groups e)"
    by (rule forever_not_triggered)
next
  fix i assume i: "i < length cs" and only: "set (groups (cs ! i)) = {''forever''}"
  have "dispatch ([] @ clear_registrations cache_groups priority @ []) e (cs, n) =
        fold run_handler (map reg_handler (handlers_for ([] @ []) e))
          (fold clear_group (groups_triggered_by cache_groups e) cs, n)"
    by (rule dispatch_clear_first) simp
  then have "fst (dispatch (connect_clear_caching_events cache_groups priority []) e (cs, n)) =
        fold clear_group (groups_triggered_by cache_groups e) cs"
    by (simp add: connect_clear_caching_events_eq handlers_for_def)
  moreover have "fold clear_group (groups_triggered_by cache_groups e) cs ! i = cs ! i"
    using i only forever_not_triggered[of e] by (intro fold_clear_group_keeps) auto
  ultimately show "fst (dispatch (connect_clear_caching_events cache_groups priority []) e (cs, n)) ! i
      = cs ! i"
    by simp
qed (simp_all add: cache_groups_def)

theorem cache_groups_wiring_witness:
  "1 < length example_caches \<and> set (groups (example_caches ! 1)) = {''forever''} \<and>
   fst (dispatch (connect_clear_caching_events cache_groups 0 []) Mem_changed (example_caches, 0)) ! 1 =
     \<lparr>groups = [''forever''], entries = [(3, 4)]\<rparr>"
proof -
  have l: "1 < length example_caches" by (simp add: example_caches_def)
  have f: "set (groups (example_caches ! 1)) = {''forever''}" by (simp add: example_caches_def)
  have "fst (dispatch (connect_clear_caching_events cache_groups 0 []) Mem_changed (example_caches, 0)) ! 1
        = example_caches ! 1"
    using cache_groups_wiring[of Mem_changed example_caches 0 0] l f by blast
  then show ?thesis using l f by (simp add: example_caches_def)
qed


end
